theory Spec2Isabelle
  imports Main
begin

section \<open>Characters and strings\<close>

text \<open>
  The scanner works on a Python \<open>str\<close>, a sequence of code points. A source text is
  modelled as a \<open>string\<close> whose characters are the code points U+0000 to U+00FF, and
  \<open>length\<close> counts code points. The three classification methods of \<open>str\<close> that
  the scanner calls are given for exactly this range, with the values Python's
  \<open>str.isdigit\<close>, \<open>str.isalpha\<close> and \<open>str.lower\<close> have there.
\<close>

definition isdigit :: "char \<Rightarrow> bool" where
  "isdigit c =
     (let n = (of_char c :: nat)
      in (48 \<le> n \<and> n \<le> 57) \<or> n = 178 \<or> n = 179 \<or> n = 185)"

definition isalpha :: "char \<Rightarrow> bool" where
  "isalpha c =
     (let n = (of_char c :: nat)
      in (65 \<le> n \<and> n \<le> 90) \<or> (97 \<le> n \<and> n \<le> 122) \<or> n = 170 \<or> n = 181 \<or> n = 186
         \<or> (192 \<le> n \<and> n \<le> 214) \<or> (216 \<le> n \<and> n \<le> 246) \<or> (248 \<le> n \<and> n \<le> 255))"

definition lower :: "char \<Rightarrow> char" where
  "lower c =
     (let n = (of_char c :: nat)
      in if (65 \<le> n \<and> n \<le> 90) \<or> (192 \<le> n \<and> n \<le> 214) \<or> (216 \<le> n \<and> n \<le> 222)
         then char_of (n + 32) else c)"

datatype error = IndexError

text \<open>\<open>source[i]\<close> for an index that is never negative: out of range raises.\<close>

definition char_at :: "string \<Rightarrow> nat \<Rightarrow> error + char" where
  "char_at s i = (if i < length s then Inr (s ! i) else Inl IndexError)"

text \<open>\<open>source[a:b]\<close> for indices that are never negative: slices clip and never raise.\<close>

definition slice :: "string \<Rightarrow> nat \<Rightarrow> nat \<Rightarrow> string" where
  "slice s a b = take (b - a) (drop a s)"

text \<open>\<open>source[i:]\<close>, where \<open>i\<close> may be negative (\<open>comment_start\<close> starts at \<open>-1\<close>).\<close>

definition slice_from :: "string \<Rightarrow> int \<Rightarrow> string" where
  "slice_from s i =
     (if i < 0 then drop (nat (int (length s) + i)) s else drop (nat i) s)"

section \<open>Tokens\<close>

record Span =
  start_line :: int
  start_col :: int
  end_line :: int
  end_col :: int

datatype OperatorType =
  MINUS | ASSIGN_MINUS | PLUS | ASSIGN_PLUS | MUL | ASSIGN_MUL
  | DIV | ASSIGN_DIV | MOD | ASSIGN_MOD | ASSIGN

datatype SeparatorType = PAREN_OPEN | PAREN_CLOSE | BRACE_OPEN | BRACE_CLOSE | SEMICOLON

datatype KeywordType = IF | ELSE | WHILE

fun operator_value :: "OperatorType \<Rightarrow> string" where
  "operator_value MINUS = ''-''"
| "operator_value ASSIGN_MINUS = ''-=''"
| "operator_value PLUS = ''+''"
| "operator_value ASSIGN_PLUS = ''+=''"
| "operator_value MUL = ''*''"
| "operator_value ASSIGN_MUL = ''*=''"
| "operator_value DIV = ''/''"
| "operator_value ASSIGN_DIV = ''/=''"
| "operator_value MOD = ''%''"
| "operator_value ASSIGN_MOD = ''%=''"
| "operator_value ASSIGN = ''=''"

fun separator_value :: "SeparatorType \<Rightarrow> string" where
  "separator_value PAREN_OPEN = ''(''"
| "separator_value PAREN_CLOSE = '')''"
| "separator_value BRACE_OPEN = ''{''"
| "separator_value BRACE_CLOSE = ''}''"
| "separator_value SEMICOLON = '';''"

fun keyword :: "KeywordType \<Rightarrow> string" where
  "keyword IF = ''if''"
| "keyword ELSE = ''else''"
| "keyword WHILE = ''while''"

text \<open>The members of \<open>KeywordType\<close> in the order in which \<open>for value in KeywordType\<close> visits them.\<close>

definition KeywordType_members :: "KeywordType list" where
  "KeywordType_members = [IF, ELSE, WHILE]"

datatype Token =
  ErrorToken string Span
  | Operator OperatorType Span
  | Separator SeparatorType Span
  | Identifier string Span
  | Keyword KeywordType Span
  | NumberLiteral string int Span

section \<open>The scanner\<close>

record Lexer =
  source :: string
  pos :: nat
  line_start :: nat
  line :: nat

definition for_string :: "string \<Rightarrow> Lexer" where
  "for_string src = \<lparr>source = src, pos = 0, line_start = 0, line = 0\<rparr>"

definition has_more :: "Lexer \<Rightarrow> nat \<Rightarrow> bool" where
  "has_more lx off = (pos lx + off < length (source lx))"

definition peek :: "Lexer \<Rightarrow> nat \<Rightarrow> error + char" where
  "peek lx off = char_at (source lx) (pos lx + off)"

definition advance :: "Lexer \<Rightarrow> nat \<Rightarrow> Lexer" where
  "advance lx n = lx\<lparr>pos := pos lx + n\<rparr>"

text \<open>
  \<open>build_span\<close> reads the position at the moment it is called, builds the span from
  there, and then moves the position on by \<open>proceed\<close>.
\<close>

definition build_span :: "Lexer \<Rightarrow> nat \<Rightarrow> Span \<times> Lexer" where
  "build_span lx proceed =
     (let start = pos lx
      in (\<lparr>start_line = int (line lx),
            start_col = int start - int (line_start lx),
            end_line = int (line lx),
            end_col = (int start - int (line_start lx)) + int proceed\<rparr>,
          advance lx proceed))"

definition is_numeric :: "char \<Rightarrow> bool" where
  "is_numeric c = isdigit c"

definition is_identifier_char :: "char \<Rightarrow> bool" where
  "is_identifier_char c = (c = CHR ''_'' \<or> isalpha c \<or> isdigit c)"

definition is_hex :: "char \<Rightarrow> bool" where
  "is_hex c = (isdigit c \<or> lower c \<in> set ''abcdef'')"

definition is_hex_prefix :: "Lexer \<Rightarrow> error + bool" where
  "is_hex_prefix lx =
     (case peek lx 0 of
        Inl e \<Rightarrow> Inl e
      | Inr c \<Rightarrow>
          if c = CHR ''0'' \<and> has_more lx 1
          then (case peek lx 1 of
                  Inl e \<Rightarrow> Inl e
                | Inr d \<Rightarrow> Inr (d = CHR ''x'' \<or> d = CHR ''X''))
          else Inr False)"

text \<open>
  The three recognizer loops have one shape,
  \<open>while self.has_more(0) and p(self.peek()): self.pos += 1\<close>,
  with \<open>p\<close> one of \<open>is_identifier_char\<close>, \<open>is_hex\<close> and \<open>is_numeric\<close>.
\<close>

function consume_while :: "(char \<Rightarrow> bool) \<Rightarrow> Lexer \<Rightarrow> error + Lexer" where
  "consume_while p lx =
     (if has_more lx 0
      then (case peek lx 0 of
              Inl e \<Rightarrow> Inl e
            | Inr c \<Rightarrow> if p c then consume_while p (advance lx 1) else Inr lx)
      else Inr lx)"
  by pat_completeness auto
termination
  by (relation "measure (\<lambda>(p, lx). length (source lx) - pos lx)")
     (auto simp: has_more_def advance_def)

declare consume_while.simps [simp del]

definition separator :: "Lexer \<Rightarrow> SeparatorType \<Rightarrow> Token \<times> Lexer" where
  "separator lx sep_type = (let (sp, lx') = build_span lx 1 in (Separator sep_type sp, lx'))"

definition single_or_assign :: "Lexer \<Rightarrow> OperatorType \<Rightarrow> OperatorType \<Rightarrow> error + Token \<times> Lexer" where
  "single_or_assign lx single assign =
     (if has_more lx 1
      then (case peek lx 1 of
              Inl e \<Rightarrow> Inl e
            | Inr c \<Rightarrow>
                if c = CHR ''=''
                then (let (sp, lx') = build_span lx 2 in Inr (Operator assign sp, lx'))
                else (let (sp, lx') = build_span lx 1 in Inr (Operator single sp, lx')))
      else (let (sp, lx') = build_span lx 1 in Inr (Operator single sp, lx')))"

definition lex_identifier_or_keyword :: "Lexer \<Rightarrow> error + Token \<times> Lexer" where
  "lex_identifier_or_keyword lx =
     (let start_pos = pos lx
      in case consume_while is_identifier_char lx of
           Inl e \<Rightarrow> Inl e
         | Inr lx1 \<Rightarrow>
             (let id_str = slice (source lx1) start_pos (pos lx1)
              in case find (\<lambda>v. keyword v = id_str) KeywordType_members of
                   Some v \<Rightarrow>
                     (let (sp, lx2) = build_span lx1 (pos lx1 - start_pos)
                      in Inr (Keyword v sp, lx2))
                 | None \<Rightarrow>
                     (let (sp, lx2) = build_span lx1 (pos lx1 - start_pos)
                      in Inr (Identifier id_str sp, lx2))))"

definition lex_number :: "Lexer \<Rightarrow> error + Token \<times> Lexer" where
  "lex_number lx =
     (let start_pos = pos lx
      in case is_hex_prefix lx of
           Inl e \<Rightarrow> Inl e
         | Inr True \<Rightarrow>
             (case consume_while is_hex (advance lx 2) of
                Inl e \<Rightarrow> Inl e
              | Inr lx1 \<Rightarrow>
                  if pos lx1 - start_pos = 2
                  then (let (sp, lx2) = build_span lx1 2
                        in Inr (ErrorToken (slice (source lx1) start_pos (pos lx1)) sp, lx2))
                  else (let (sp, lx2) = build_span lx1 (pos lx1 - start_pos)
                        in Inr (NumberLiteral (slice (source lx1) start_pos (pos lx1)) 16 sp, lx2)))
         | Inr False \<Rightarrow>
             (case consume_while is_numeric lx of
                Inl e \<Rightarrow> Inl e
              | Inr lx1 \<Rightarrow>
                  (case char_at (source lx1) start_pos of
                     Inl e \<Rightarrow> Inl e
                   | Inr c0 \<Rightarrow>
                       if c0 = CHR ''0'' \<and> pos lx1 - start_pos > 1
                       then (let (sp, lx2) = build_span lx1 (pos lx1 - start_pos)
                             in Inr (ErrorToken (slice (source lx1) start_pos (pos lx1)) sp, lx2))
                       else (let (sp, lx2) = build_span lx1 (pos lx1 - start_pos)
                             in Inr (NumberLiteral (slice (source lx1) start_pos (pos lx1)) 10 sp, lx2)))))"

subsection \<open>The whitespace and comment skipper\<close>

datatype comment_type = SINGLE_LINE | MULTI_LINE

text \<open>
  One pass through the body of the skipper's \<open>while\<close> loop either goes round again
  (\<open>continue\<close>, or falling off the end of the body) with the scanner and the three locals
  \<open>current_comment_type\<close>, \<open>multi_line_comment_depth\<close> and \<open>comment_start\<close>
  updated, or leaves the function by \<open>return None\<close>.
\<close>

datatype skip_outcome =
  Continue Lexer "comment_type option" int int
  | Return

definition skip_body :: "Lexer \<Rightarrow> comment_type option \<Rightarrow> int \<Rightarrow> int \<Rightarrow> error + skip_outcome" where
  "skip_body lx current_comment_type multi_line_comment_depth comment_start =
     (case peek lx 0 of
        Inl e \<Rightarrow> Inl e
      | Inr ch \<Rightarrow>
          if ch = CHR '' '' \<or> ch = CHR 0x09
          then Inr (Continue (advance lx 1) current_comment_type multi_line_comment_depth comment_start)
          else if ch = CHR 0x0A \<or> ch = CHR 0x0D
          then Inr (Continue (lx\<lparr>pos := pos lx + 1, line_start := pos lx + 1, line := line lx + 1\<rparr>)
                      (if current_comment_type = Some SINGLE_LINE then None else current_comment_type)
                      multi_line_comment_depth comment_start)
          else if ch = CHR ''/''
          then (if current_comment_type = Some SINGLE_LINE
                then Inr (Continue (advance lx 1) current_comment_type multi_line_comment_depth comment_start)
                else if has_more lx 1
                then (case peek lx 1 of
                        Inl e \<Rightarrow> Inl e
                      | Inr next_ch \<Rightarrow>
                          if next_ch = CHR ''/'' \<and> current_comment_type = None
                          then Inr (Continue (advance lx 2) (Some SINGLE_LINE)
                                      multi_line_comment_depth (int (pos lx)))
                          else if next_ch = CHR ''*''
                          then Inr (Continue (advance lx 2) (Some MULTI_LINE)
                                      (multi_line_comment_depth + 1) (int (pos lx)))
                          else if current_comment_type = Some MULTI_LINE
                          then Inr (Continue (advance lx 1) current_comment_type
                                      multi_line_comment_depth comment_start)
                          else Inr Return)
                else if multi_line_comment_depth > 0
                then Inr (Continue (advance lx 1) current_comment_type multi_line_comment_depth comment_start)
                else Inr Return)
          else (if current_comment_type = Some MULTI_LINE
                then (if ch = CHR ''*'' \<and> has_more lx 1
                      then (case peek lx 1 of
                              Inl e \<Rightarrow> Inl e
                            | Inr next_ch \<Rightarrow>
                                if next_ch = CHR ''/''
                                then Inr (Continue (advance lx 2)
                                            (if multi_line_comment_depth - 1 = 0 then None else Some MULTI_LINE)
                                            (multi_line_comment_depth - 1) comment_start)
                                else Inr (Continue (advance lx 1) current_comment_type
                                            multi_line_comment_depth comment_start))
                      else Inr (Continue (advance lx 1) current_comment_type
                                  multi_line_comment_depth comment_start))
                else if current_comment_type = Some SINGLE_LINE
                then Inr (Continue (advance lx 1) current_comment_type multi_line_comment_depth comment_start)
                else Inr Return))"

lemma skip_body_progress:
  assumes "has_more lx 0" and "skip_body lx cct d cs = Inr (Continue lx' cct' d' cs')"
  shows "source lx' = source lx \<and> pos lx < pos lx' \<and> pos lx' \<le> length (source lx)"
  using assms
  by (auto simp: skip_body_def peek_def char_at_def has_more_def advance_def
           split: if_splits sum.splits)

function skip_loop :: "Lexer \<Rightarrow> comment_type option \<Rightarrow> int \<Rightarrow> int \<Rightarrow> error + Token option \<times> Lexer" where
  "skip_loop lx current_comment_type multi_line_comment_depth comment_start =
     (if has_more lx 0
      then (case skip_body lx current_comment_type multi_line_comment_depth comment_start of
              Inl e \<Rightarrow> Inl e
            | Inr Return \<Rightarrow> Inr (None, lx)
            | Inr (Continue lx' cct' depth' cs') \<Rightarrow> skip_loop lx' cct' depth' cs')
      else if \<not> has_more lx 0 \<and> current_comment_type = Some MULTI_LINE
      then (let (sp, lx') = build_span lx 0
            in Inr (Some (ErrorToken (slice_from (source lx) comment_start) sp), lx'))
      else Inr (None, lx))"
  by pat_completeness auto
termination
proof (relation "measure (\<lambda>(lx, cct, d, cs). length (source lx) - pos lx)")
  show "wf (measure (\<lambda>(lx, cct, d, cs). length (source lx) - pos lx))"
    by simp
next
  fix lx :: Lexer and cct d cs x2 lx' cct' d' cs'
  assume "has_more lx 0" and "skip_body lx cct d cs = Inr x2" and "x2 = Continue lx' cct' d' cs'"
  then have "source lx' = source lx \<and> pos lx < pos lx' \<and> pos lx' \<le> length (source lx)"
    using skip_body_progress by blast
  then show "((lx', cct', d', cs'), (lx, cct, d, cs))
             \<in> measure (\<lambda>(lx, cct, d, cs). length (source lx) - pos lx)"
    by auto
qed

declare skip_loop.simps [simp del]

definition skip_whitespace :: "Lexer \<Rightarrow> error + Token option \<times> Lexer" where
  "skip_whitespace lx = skip_loop lx None 0 (- 1)"

subsection \<open>Token dispatch\<close>

text \<open>A recognizer's token, handed back by \<open>next_token\<close> as its (present) result.\<close>

definition return_token :: "error + Token \<times> Lexer \<Rightarrow> error + Token option \<times> Lexer" where
  "return_token r = (case r of Inl e \<Rightarrow> Inl e | Inr (t, lx) \<Rightarrow> Inr (Some t, lx))"

definition next_token :: "Lexer \<Rightarrow> error + Token option \<times> Lexer" where
  "next_token lx =
     (case skip_whitespace lx of
        Inl e \<Rightarrow> Inl e
      | Inr (Some err, lx1) \<Rightarrow> Inr (Some err, lx1)
      | Inr (None, lx1) \<Rightarrow>
          if pos lx1 \<ge> length (source lx1) then Inr (None, lx1)
          else (case peek lx1 0 of
                  Inl e \<Rightarrow> Inl e
                | Inr current_char \<Rightarrow>
                    if current_char = CHR ''('' then return_token (Inr (separator lx1 PAREN_OPEN))
                    else if current_char = CHR '')'' then return_token (Inr (separator lx1 PAREN_CLOSE))
                    else if current_char = CHR ''{'' then return_token (Inr (separator lx1 BRACE_OPEN))
                    else if current_char = CHR ''}'' then return_token (Inr (separator lx1 BRACE_CLOSE))
                    else if current_char = CHR '';'' then return_token (Inr (separator lx1 SEMICOLON))
                    else if current_char = CHR ''-'' then return_token (single_or_assign lx1 MINUS ASSIGN_MINUS)
                    else if current_char = CHR ''+'' then return_token (single_or_assign lx1 PLUS ASSIGN_PLUS)
                    else if current_char = CHR ''*'' then return_token (single_or_assign lx1 MUL ASSIGN_MUL)
                    else if current_char = CHR ''/'' then return_token (single_or_assign lx1 DIV ASSIGN_DIV)
                    else if current_char = CHR ''%'' then return_token (single_or_assign lx1 MOD ASSIGN_MOD)
                    else if current_char = CHR ''='' then
                      return_token (Inr (let (sp, lx2) = build_span lx1 1 in (Operator ASSIGN sp, lx2)))
                    else if is_identifier_char current_char then
                      (if is_numeric current_char then return_token (lex_number lx1)
                       else return_token (lex_identifier_or_keyword lx1))
                    else return_token
                           (Inr (let (sp, lx2) = build_span lx1 1
                                 in (ErrorToken [current_char] sp, lx2)))))"


section \<open>Callers and reference notions\<close>

text \<open>
  A caller pulls tokens by calling \<open>next_token\<close> again and again on one scanner.
  \<open>next_token_after n lx\<close> is what the call made after \<open>n\<close> earlier calls returns.
\<close>

fun next_token_after :: "nat \<Rightarrow> Lexer \<Rightarrow> error + Token option \<times> Lexer" where
  "next_token_after 0 lx = next_token lx"
| "next_token_after (Suc n) lx =
     (case next_token lx of Inl e \<Rightarrow> Inl e | Inr (t, lx') \<Rightarrow> next_token_after n lx')"

text \<open>The maximal run of identifier characters that starts at the scanner's position.\<close>

definition identifier_run :: "Lexer \<Rightarrow> string" where
  "identifier_run lx = takeWhile is_identifier_char (drop (pos lx) (source lx))"

text \<open>
  The classification the specification asks for, in its own words: a run is a keyword
  exactly if it is one of the three spellings, and an identifier named by the run otherwise.
\<close>

definition classify_run :: "string \<Rightarrow> Span \<Rightarrow> Token" where
  "classify_run run sp =
     (if run = ''if'' then Keyword IF sp
      else if run = ''else'' then Keyword ELSE sp
      else if run = ''while'' then Keyword WHILE sp
      else Identifier run sp)"

text \<open>
  The text a span selects. Lines are counted as the skipper counts them: every single
  \<open>\n\<close> and every single \<open>\r\<close> ends a line. \<open>line_offset src n\<close> is the offset
  at which line \<open>n\<close> starts, and a (line, column) pair is the offset of the line plus the
  column.
\<close>

fun line_offset :: "string \<Rightarrow> nat \<Rightarrow> nat" where
  "line_offset src 0 = 0"
| "line_offset [] (Suc n) = 0"
| "line_offset (c # cs) (Suc n) =
     Suc (if c = CHR 0x0A \<or> c = CHR 0x0D then line_offset cs n else line_offset cs (Suc n))"

definition span_text :: "string \<Rightarrow> Span \<Rightarrow> string" where
  "span_text src sp =
     slice src (line_offset src (nat (start_line sp)) + nat (start_col sp))
               (line_offset src (nat (end_line sp)) + nat (end_col sp))"

text \<open>The literal text of a token that is not an error token.\<close>

fun token_text :: "Token \<Rightarrow> string option" where
  "token_text (ErrorToken message sp) = None"
| "token_text (Operator op_type sp) = Some (operator_value op_type)"
| "token_text (Separator sep_type sp) = Some (separator_value sep_type)"
| "token_text (Identifier name sp) = Some name"
| "token_text (Keyword keyword_type sp) = Some (keyword keyword_type)"
| "token_text (NumberLiteral v base sp) = Some v"

fun token_span :: "Token \<Rightarrow> Span" where
  "token_span (ErrorToken message sp) = sp"
| "token_span (Operator op_type sp) = sp"
| "token_span (Separator sep_type sp) = sp"
| "token_span (Identifier name sp) = sp"
| "token_span (Keyword keyword_type sp) = sp"
| "token_span (NumberLiteral v base sp) = sp"

text \<open>
  The skipper's locals are consistent when the depth is positive exactly in a block
  comment.
\<close>

definition depth_consistent :: "comment_type option \<Rightarrow> int \<Rightarrow> bool" where
  "depth_consistent cct d = (if cct = Some MULTI_LINE then 0 < d else d = 0)"

text \<open>
  Balanced nested block comments, as texts: a comment is \<open>/*\<close>, a sequence of items and
  \<open>*/\<close>, where an item is a nested comment or a single character of comment body other
  than \<open>/\<close> and \<open>*\<close>. \<open>render\<close> is the text of an item, \<open>plain\<close> says that its body
  characters are of that kind, and \<open>blank\<close> are the whitespace characters.
\<close>

datatype comment_item = Body char | Inner "comment_item list"

fun render :: "comment_item \<Rightarrow> string" where
  "render (Body c) = [c]"
| "render (Inner items) = ''/*'' @ concat (map render items) @ ''*/''"

fun plain :: "comment_item \<Rightarrow> bool" where
  "plain (Body c) = (c \<noteq> CHR ''/'' \<and> c \<noteq> CHR ''*'')"
| "plain (Inner items) = list_all plain items"

definition blank :: "char \<Rightarrow> bool" where
  "blank c = (c = CHR '' '' \<or> c = CHR 0x09 \<or> c = CHR 0x0A \<or> c = CHR 0x0D)"

text \<open>
  A text that the skipper, in a block comment at any positive depth, runs over from its
  first to its last character, coming out in the block comment at the same depth.
\<close>

definition skips_in_block :: "string \<Rightarrow> bool" where
  "skips_in_block body =
     (\<forall>lx d cs post. 0 < d \<longrightarrow> drop (pos lx) (source lx) = body @ post \<longrightarrow>
        (\<exists>lx' cs'. skip_loop lx (Some MULTI_LINE) d cs = skip_loop lx' (Some MULTI_LINE) d cs'
           \<and> source lx' = source lx \<and> pos lx' = pos lx + length body))"

text \<open>
  The skipper as the specification describes it (section 4.2), as a state machine over the
  characters that are left: the states \<open>NONE\<close>, \<open>LINE_COMMENT\<close> and
  \<open>BLOCK_COMMENT\<close>, and the block-comment depth. Space and tab are consumed; a newline is
  consumed and ends a line comment; \<open>/\<close> is comment body in a line comment, and otherwise
  \<open>//\<close> outside any comment enters a line comment, \<open>/*\<close> enters or re-enters a block
  comment one level deeper, a \<open>/\<close> in a block comment is body, and any other \<open>/\<close> starts
  a token; \<open>*/\<close> in a block comment goes one level up and leaves the block comment at depth
  0; any other character is body in a comment and starts a token outside. The run ends with
  the input exhausted, with a token starting, or with the input ending in a block comment.
\<close>

datatype skipper_state = NONE | LINE_COMMENT | BLOCK_COMMENT

datatype skipper_end = Exhausted | Token_starts | Unterminated

fun spec_skipper :: "skipper_state \<Rightarrow> int \<Rightarrow> string \<Rightarrow> skipper_end" where
  "spec_skipper st depth [] = (if st = BLOCK_COMMENT then Unterminated else Exhausted)"
| "spec_skipper st depth (c # cs) =
     (if c = CHR '' '' \<or> c = CHR 0x09 then spec_skipper st depth cs
      else if c = CHR 0x0A \<or> c = CHR 0x0D
      then spec_skipper (if st = LINE_COMMENT then NONE else st) depth cs
      else if c = CHR ''/''
      then (if st = LINE_COMMENT then spec_skipper st depth cs
            else (case cs of
                    [] \<Rightarrow> if st = BLOCK_COMMENT then spec_skipper st depth cs else Token_starts
                  | c' # cs' \<Rightarrow>
                      if c' = CHR ''/'' \<and> st = NONE then spec_skipper LINE_COMMENT depth cs'
                      else if c' = CHR ''*'' then spec_skipper BLOCK_COMMENT (depth + 1) cs'
                      else if st = BLOCK_COMMENT then spec_skipper st depth cs
                      else Token_starts))
      else if st = BLOCK_COMMENT
      then (case cs of
              [] \<Rightarrow> spec_skipper st depth cs
            | c' # cs' \<Rightarrow>
                if c = CHR ''*'' \<and> c' = CHR ''/''
                then spec_skipper (if depth - 1 = 0 then NONE else BLOCK_COMMENT) (depth - 1) cs'
                else spec_skipper st depth cs)
      else if st = LINE_COMMENT then spec_skipper st depth cs
      else Token_starts)"

text \<open>
  The remaining input contains no further token when the specification's skipper, started
  outside any comment, exhausts it: only whitespace and complete comments are left.
\<close>

definition no_further_token :: "string \<Rightarrow> bool" where
  "no_further_token rest = (spec_skipper NONE 0 rest = Exhausted)"

text \<open>
  The state of the specification's skipper that stands for the locals of the code's
  skipper, and the way a run of the code's skipper ends.
\<close>

fun state_of :: "comment_type option \<Rightarrow> skipper_state" where
  "state_of None = NONE"
| "state_of (Some SINGLE_LINE) = LINE_COMMENT"
| "state_of (Some MULTI_LINE) = BLOCK_COMMENT"

fun end_of :: "error + Token option \<times> Lexer \<Rightarrow> skipper_end option" where
  "end_of (Inl e) = None"
| "end_of (Inr (None, lx)) = Some (if has_more lx 0 then Token_starts else Exhausted)"
| "end_of (Inr (Some t, lx)) = Some Unterminated"


text \<open>A result that is a token, with the scanner moved strictly forward on the same text.\<close>

definition advances :: "Lexer \<Rightarrow> error + Token option \<times> Lexer \<Rightarrow> bool" where
  "advances lx r = (\<exists>t lx'. r = Inr (Some t, lx') \<and> source lx' = source lx \<and> pos lx < pos lx')"

section \<open>Basic facts about the scanner\<close>

lemma peek_has_more: "has_more lx k \<Longrightarrow> peek lx k = Inr (source lx ! (pos lx + k))"
  by (simp add: peek_def char_at_def has_more_def)

lemma has_more_0_if_1: "has_more lx 1 \<Longrightarrow> has_more lx 0"
  by (simp add: has_more_def)

lemma advance_simps [simp]:
  "source (advance lx n) = source lx"
  "pos (advance lx n) = pos lx + n"
  "line (advance lx n) = line lx"
  "line_start (advance lx n) = line_start lx"
  by (simp_all add: advance_def)

lemma advance_0 [simp]: "advance lx 0 = lx"
  by (simp add: advance_def)

lemma advance_advance [simp]: "advance (advance lx m) n = advance lx (m + n)"
  by (simp add: advance_def)

lemma consume_while_eq:
  "consume_while p lx = Inr (advance lx (length (takeWhile p (drop (pos lx) (source lx)))))"
proof (induction p lx rule: consume_while.induct)
  case (1 p lx)
  show ?case
  proof (cases "has_more lx 0")
    case False
    then have "drop (pos lx) (source lx) = []"
      by (simp add: has_more_def)
    with False show ?thesis
      by (subst consume_while.simps) simp
  next
    case True
    then have pk: "peek lx 0 = Inr (source lx ! pos lx)"
      using peek_has_more [of lx 0] by simp
    from True have dr: "drop (pos lx) (source lx) = source lx ! pos lx # drop (Suc (pos lx)) (source lx)"
      by (simp add: has_more_def Cons_nth_drop_Suc)
    show ?thesis
    proof (cases "p (source lx ! pos lx)")
      case False
      with True pk dr show ?thesis
        by (subst consume_while.simps) simp
    next
      case yes: True
      have "consume_while p lx = consume_while p (advance lx 1)"
        using True pk yes by (subst consume_while.simps) simp
      also have "\<dots> = Inr (advance (advance lx 1) (length (takeWhile p (drop (pos (advance lx 1)) (source (advance lx 1))))))"
        using "1.IH" [OF True pk yes] .
      finally show ?thesis
        using dr yes by simp
    qed
  qed
qed

lemma build_span_eq:
  "build_span lx n =
     (\<lparr>start_line = int (line lx), start_col = int (pos lx) - int (line_start lx),
       end_line = int (line lx), end_col = int (pos lx) - int (line_start lx) + int n\<rparr>,
      advance lx n)"
  by (simp add: build_span_def Let_def)

lemma skip_body_total:
  "has_more lx 0 \<Longrightarrow> \<exists>out. skip_body lx cct d cs = Inr out"
  by (auto simp: skip_body_def peek_def char_at_def has_more_def split: if_splits sum.splits)

lemma skip_loop_total: "\<exists>r. skip_loop lx cct d cs = Inr r"
proof (induction lx cct d cs rule: skip_loop.induct)
  case (1 lx cct d cs)
  show ?case
  proof (cases "has_more lx 0")
    case False
    then show ?thesis
      by (subst skip_loop.simps) (simp add: build_span_eq)
  next
    case True
    then obtain out where out: "skip_body lx cct d cs = Inr out"
      using skip_body_total by blast
    show ?thesis
    proof (cases out)
      case Return
      with True out show ?thesis
        by (subst skip_loop.simps) simp
    next
      case (Continue lx' cct' d' cs')
      with True out "1.IH" [OF True out Continue] show ?thesis
        by (subst skip_loop.simps) simp
    qed
  qed
qed

lemma skip_loop_exhausted:
  "\<not> has_more lx 0 \<Longrightarrow> cct \<noteq> Some MULTI_LINE \<Longrightarrow> skip_loop lx cct d cs = Inr (None, lx)"
  by (subst skip_loop.simps) simp

lemma skip_loop_result:
  "skip_loop lx cct d cs = Inr (r, lx') \<Longrightarrow>
     source lx' = source lx \<and> pos lx \<le> pos lx' \<and>
     (r \<noteq> None \<longrightarrow> \<not> has_more lx' 0 \<and> (cct \<noteq> Some MULTI_LINE \<longrightarrow> pos lx < pos lx'))"
proof (induction lx cct d cs rule: skip_loop.induct)
  case (1 lx cct d cs)
  show ?case
  proof (cases "has_more lx 0")
    case False
    with "1.prems" show ?thesis
      by (subst (asm) skip_loop.simps) (auto simp: build_span_eq split: if_splits)
  next
    case True
    then obtain out where out: "skip_body lx cct d cs = Inr out"
      using skip_body_total by blast
    show ?thesis
    proof (cases out)
      case Return
      with True out "1.prems" show ?thesis
        by (subst (asm) skip_loop.simps) auto
    next
      case (Continue lx1 cct1 d1 cs1)
      have step: "source lx1 = source lx \<and> pos lx < pos lx1 \<and> pos lx1 \<le> length (source lx)"
        using skip_body_progress True out Continue by blast
      have "skip_loop lx1 cct1 d1 cs1 = Inr (r, lx')"
        using True out Continue "1.prems" by (subst (asm) skip_loop.simps) simp
      from "1.IH" [OF True out Continue this] step show ?thesis
        by auto
    qed
  qed
qed

lemma advances_if:
  "(c \<Longrightarrow> advances lx a) \<Longrightarrow> (\<not> c \<Longrightarrow> advances lx b) \<Longrightarrow> advances lx (if c then a else b)"
  by simp

lemma advances_separator: "advances lx (return_token (Inr (separator lx s)))"
  by (simp add: advances_def return_token_def separator_def build_span_eq)

lemma advances_single_or_assign: "advances lx (return_token (single_or_assign lx a b))"
  by (simp add: advances_def return_token_def single_or_assign_def build_span_eq peek_has_more)

lemma advances_assign:
  "advances lx (return_token (Inr (let (sp, lx2) = build_span lx 1 in (t sp, lx2))))"
  by (simp add: advances_def return_token_def build_span_eq)

lemma takeWhile_first:
  "has_more lx 0 \<Longrightarrow> p (source lx ! pos lx) \<Longrightarrow>
     0 < length (takeWhile p (drop (pos lx) (source lx)))"
  by (simp add: has_more_def Cons_nth_drop_Suc [symmetric])

lemma advances_lex_identifier_or_keyword:
  assumes "has_more lx 0" and "is_identifier_char (source lx ! pos lx)"
  shows "advances lx (return_token (lex_identifier_or_keyword lx))"
  using takeWhile_first [of lx is_identifier_char] assms
  by (simp add: advances_def return_token_def lex_identifier_or_keyword_def consume_while_eq
        build_span_eq Let_def split: option.splits)

lemma is_hex_prefix_total:
  "has_more lx 0 \<Longrightarrow> \<exists>b. is_hex_prefix lx = Inr b"
  by (auto simp: is_hex_prefix_def peek_has_more)

lemma advances_lex_number:
  assumes "has_more lx 0" and "is_numeric (source lx ! pos lx)"
  shows "advances lx (return_token (lex_number lx))"
proof -
  obtain b where b: "is_hex_prefix lx = Inr b"
    using is_hex_prefix_total assms(1) by blast
  have at: "char_at (source lx) (pos lx) = Inr (source lx ! pos lx)"
    using assms(1) by (simp add: char_at_def has_more_def)
  show ?thesis
    using takeWhile_first [of lx is_numeric] assms b at
    by (cases b)
       (simp_all add: advances_def return_token_def lex_number_def consume_while_eq
          build_span_eq Let_def)
qed

lemma next_token_result:
  "\<exists>r lx'. next_token lx = Inr (r, lx') \<and> source lx' = source lx \<and>
     (case r of None \<Rightarrow> \<not> has_more lx' 0 \<and> skip_whitespace lx = Inr (None, lx')
      | Some t \<Rightarrow> pos lx < pos lx')"
proof -
  obtain r1 lx1 where sk: "skip_whitespace lx = Inr (r1, lx1)"
    using skip_loop_total [of lx None 0 "- 1"] by (auto simp: skip_whitespace_def)
  then have res: "source lx1 = source lx \<and> pos lx \<le> pos lx1 \<and>
     (r1 \<noteq> None \<longrightarrow> \<not> has_more lx1 0 \<and> pos lx < pos lx1)"
    using skip_loop_result [of lx None 0 "- 1" r1 lx1] by (simp add: skip_whitespace_def)
  show ?thesis
  proof (cases r1)
    case (Some err)
    with sk res show ?thesis
      by (simp add: next_token_def)
  next
    case None
    show ?thesis
    proof (cases "has_more lx1 0")
      case False
      with sk None res show ?thesis
        by (simp add: next_token_def has_more_def)
    next
      case True
      let ?c = "source lx1 ! pos lx1"
      have "advances lx1 (next_token lx)"
        using sk None True
        apply (simp add: next_token_def peek_has_more has_more_def split del: if_split)
        apply (intro advances_if impI conjI advances_separator advances_single_or_assign
                 advances_assign advances_lex_identifier_or_keyword advances_lex_number)
        apply (simp_all add: has_more_def)
        done
      with res show ?thesis
        by (auto simp: advances_def)
    qed
  qed
qed



lemma next_token_exhausted: "\<not> has_more lx 0 \<Longrightarrow> next_token lx = Inr (None, lx)"
  by (simp add: next_token_def skip_whitespace_def skip_loop_exhausted has_more_def)

lemma next_token_after_exhausted: "\<not> has_more lx 0 \<Longrightarrow> next_token_after n lx = Inr (None, lx)"
  by (induction n) (simp_all add: next_token_exhausted)

lemma next_token_after_sentinel:
  "length (source lx) - pos lx \<le> n \<Longrightarrow> \<exists>lx'. next_token_after n lx = Inr (None, lx')"
proof (induction n arbitrary: lx)
  case 0
  then have "\<not> has_more lx 0"
    by (simp add: has_more_def)
  then show ?case
    by (simp add: next_token_exhausted)
next
  case (Suc n)
  obtain r lx1 where nt: "next_token lx = Inr (r, lx1)" and src: "source lx1 = source lx"
    and res: "case r of None \<Rightarrow> \<not> has_more lx1 0 \<and> skip_whitespace lx = Inr (None, lx1)
              | Some t \<Rightarrow> pos lx < pos lx1"
    using next_token_result [of lx] by blast
  show ?case
  proof (cases r)
    case None
    with res have "\<not> has_more lx1 0" by simp
    then show ?thesis
      using nt by (simp add: next_token_after_exhausted)
  next
    case (Some t)
    with res have "pos lx < pos lx1" by simp
    with Suc.prems src have "length (source lx1) - pos lx1 \<le> n" by simp
    from Suc.IH [OF this] nt show ?thesis by simp
  qed
qed

lemma next_token_after_total: "\<exists>r lx'. next_token_after n lx = Inr (r, lx')"
proof (induction n arbitrary: lx)
  case 0
  show ?case using next_token_result [of lx] by auto
next
  case (Suc n)
  obtain r lx1 where "next_token lx = Inr (r, lx1)"
    using next_token_result [of lx] by blast
  with Suc [of lx1] show ?case by simp
qed

lemma slice_takeWhile:
  "slice s a (a + length (takeWhile p (drop a s))) = takeWhile p (drop a s)"
  by (simp add: slice_def takeWhile_eq_take [symmetric])

lemma find_keyword:
  "find (\<lambda>v. keyword v = run) KeywordType_members =
     (if run = ''if'' then Some IF else if run = ''else'' then Some ELSE
      else if run = ''while'' then Some WHILE else None)"
  by (auto simp: KeywordType_members_def)

lemma lex_identifier_or_keyword_eq:
  "lex_identifier_or_keyword lx =
     Inr (classify_run (identifier_run lx)
            (fst (build_span (advance lx (length (identifier_run lx))) (length (identifier_run lx)))),
          advance lx (2 * length (identifier_run lx)))"
  by (simp add: lex_identifier_or_keyword_def consume_while_eq Let_def identifier_run_def
        slice_takeWhile find_keyword classify_run_def build_span_eq)

lemma identifier_char_not_special:
  "is_identifier_char c \<Longrightarrow>
     c \<notin> {CHR '' '', CHR 0x09, CHR 0x0A, CHR 0x0D, CHR ''/'', CHR ''('', CHR '')'', CHR ''{'',
           CHR ''}'', CHR '';'', CHR ''-'', CHR ''+'', CHR ''*'', CHR ''%'', CHR ''=''}"
  by (auto simp: is_identifier_char_def isalpha_def isdigit_def)



lemma skip_whitespace_at_identifier_char:
  assumes "has_more lx 0" and "is_identifier_char (source lx ! pos lx)"
  shows "skip_whitespace lx = Inr (None, lx)"
proof -
  have "skip_body lx None 0 (- 1) = Inr Return"
    using assms identifier_char_not_special [OF assms(2)]
    by (simp add: skip_body_def peek_has_more)
  with assms(1) show ?thesis
    by (simp add: skip_whitespace_def skip_loop.simps [of lx])
qed

lemma next_token_at_identifier_start:
  assumes "has_more lx 0" and "is_identifier_char (source lx ! pos lx)"
    and "\<not> is_numeric (source lx ! pos lx)"
  shows "next_token lx = return_token (lex_identifier_or_keyword lx)"
  using assms identifier_char_not_special [OF assms(2)]
  by (simp add: next_token_def skip_whitespace_at_identifier_char peek_has_more)
     (simp add: has_more_def)

section \<open>Keywords and identifiers\<close>

text \<open>
  Claim C5. The identifier/keyword recognizer, at any scanner state, returns the token that
  the specification's classification gives for the maximal run of identifier characters
  (letters, digits, underscore) at the position: \<open>Keyword\<close> of the matching kind exactly
  when the run is \<open>if\<close>, \<open>else\<close> or \<open>while\<close>, and otherwise \<open>Identifier\<close> named by
  the run. When the scanner stands on an identifier character that is not a digit,
  \<open>next_token\<close> returns that token.
\<close>

theorem keyword_identifier_partition:
  "(\<exists>sp lx'. lex_identifier_or_keyword lx = Inr (classify_run (identifier_run lx) sp, lx')) \<and>
   (has_more lx 0 \<and> is_identifier_char (source lx ! pos lx) \<and> \<not> is_numeric (source lx ! pos lx)
      \<longrightarrow> (\<exists>sp lx'. next_token lx = Inr (Some (classify_run (identifier_run lx) sp), lx')))"
proof (intro conjI impI)
  show "\<exists>sp lx'. lex_identifier_or_keyword lx = Inr (classify_run (identifier_run lx) sp, lx')"
    using lex_identifier_or_keyword_eq [of lx] by blast
next
  assume "has_more lx 0 \<and> is_identifier_char (source lx ! pos lx) \<and> \<not> is_numeric (source lx ! pos lx)"
  then have "next_token lx = return_token (lex_identifier_or_keyword lx)"
    using next_token_at_identifier_start by blast
  then have "next_token lx =
      Inr (Some (classify_run (identifier_run lx)
            (fst (build_span (advance lx (length (identifier_run lx))) (length (identifier_run lx))))),
          advance lx (2 * length (identifier_run lx)))"
    by (simp add: lex_identifier_or_keyword_eq [of lx] return_token_def)
  then show "\<exists>sp lx'. next_token lx = Inr (Some (classify_run (identifier_run lx) sp), lx')"
    by blast
qed

theorem keyword_identifier_partition_witness:
  "has_more (for_string ''iff'') 0 \<and> is_identifier_char (source (for_string ''iff'') ! pos (for_string ''iff''))
   \<and> \<not> is_numeric (source (for_string ''iff'') ! pos (for_string ''iff''))
   \<and> (\<exists>sp lx'. next_token (for_string ''iff'') = Inr (Some (Identifier ''iff'' sp), lx'))
   \<and> (\<exists>sp lx'. lex_identifier_or_keyword (for_string ''while (x)'') = Inr (Keyword WHILE sp, lx'))"
proof -
  have a: "has_more (for_string ''iff'') 0 \<and> is_identifier_char (source (for_string ''iff'') ! pos (for_string ''iff''))
   \<and> \<not> is_numeric (source (for_string ''iff'') ! pos (for_string ''iff''))"
    by (simp add: for_string_def has_more_def is_identifier_char_def is_numeric_def isalpha_def isdigit_def)
  have r1: "classify_run (identifier_run (for_string ''iff'')) sp = Identifier ''iff'' sp" for sp
    by (simp add: classify_run_def identifier_run_def for_string_def is_identifier_char_def isalpha_def isdigit_def)
  have r2: "classify_run (identifier_run (for_string ''while (x)'')) sp = Keyword WHILE sp" for sp
    by (simp add: classify_run_def identifier_run_def for_string_def is_identifier_char_def isalpha_def isdigit_def)
  show ?thesis
    using a keyword_identifier_partition [of "for_string ''iff''"]
      keyword_identifier_partition [of "for_string ''while (x)''"]
    by (simp only: r1 r2) blast
qed

section \<open>Passes of the skipper over block comments\<close>

lemma skip_body_open:
  assumes "has_more lx 1" and "source lx ! pos lx = CHR ''/''" and "source lx ! (pos lx + 1) = CHR ''*''"
    and "cct \<noteq> Some SINGLE_LINE"
  shows "skip_body lx cct d cs = Inr (Continue (advance lx 2) (Some MULTI_LINE) (d + 1) (int (pos lx)))"
  using assms has_more_0_if_1 [OF assms(1)]
  by (simp add: skip_body_def peek_has_more)

lemma skip_body_close:
  assumes "has_more lx 1" and "source lx ! pos lx = CHR ''*''" and "source lx ! (pos lx + 1) = CHR ''/''"
  shows "skip_body lx (Some MULTI_LINE) d cs =
           Inr (Continue (advance lx 2) (if d - 1 = 0 then None else Some MULTI_LINE) (d - 1) cs)"
  using assms has_more_0_if_1 [OF assms(1)]
  by (simp add: skip_body_def peek_has_more)


lemma skip_body_depth_consistent:
  assumes "has_more lx 0" and "depth_consistent cct d"
    and "skip_body lx cct d cs = Inr (Continue lx' cct' d' cs')"
  shows "depth_consistent cct' d'"
  using assms
  by (auto simp: skip_body_def peek_has_more depth_consistent_def split: if_splits)

lemma drop_append_more: "drop n xs = a @ b \<Longrightarrow> drop (n + length a) xs = b"
  by (metis add.commute append_eq_conv_conj drop_drop)

lemma at_text:
  assumes "drop (pos lx) (source lx) = c # post"
  shows "has_more lx 0" and "source lx ! pos lx = c"
proof -
  from assms show "has_more lx 0"
    by (cases "pos lx < length (source lx)") (simp_all add: has_more_def)
  then show "source lx ! pos lx = c"
    using assms by (metis Cons_nth_drop_Suc add.right_neutral has_more_def list.inject)
qed

lemma at_text2:
  assumes "drop (pos lx) (source lx) = c # c' # post"
  shows "has_more lx 1" and "source lx ! pos lx = c" and "source lx ! (pos lx + 1) = c'"
proof -
  from assms show c: "source lx ! pos lx = c"
    using at_text by blast
  have d: "drop (pos (advance lx 1)) (source (advance lx 1)) = c' # post"
    using drop_append_more [of "pos lx" "source lx" "[c]" "c' # post"] assms by simp
  from at_text [OF d] show "has_more lx 1" and "source lx ! (pos lx + 1) = c'"
    by (simp_all add: has_more_def)
qed

lemma skips_in_block_empty: "skips_in_block []"
  by (auto simp: skips_in_block_def)

lemma skips_in_block_append:
  assumes "skips_in_block a" and "skips_in_block b"
  shows "skips_in_block (a @ b)"
  unfolding skips_in_block_def
proof (intro allI impI)
  fix lx :: Lexer and d cs post
  assume d: "(0::int) < d" and at: "drop (pos lx) (source lx) = (a @ b) @ post"
  from assms(1) d at obtain lx1 cs1 where
    1: "skip_loop lx (Some MULTI_LINE) d cs = skip_loop lx1 (Some MULTI_LINE) d cs1"
      "source lx1 = source lx" "pos lx1 = pos lx + length a"
    unfolding skips_in_block_def by (metis append.assoc)
  have "drop (pos lx1) (source lx1) = b @ post"
    using drop_append_more [of "pos lx" "source lx" a "b @ post"] at 1 by simp
  with assms(2) d obtain lx2 cs2 where
    2: "skip_loop lx1 (Some MULTI_LINE) d cs1 = skip_loop lx2 (Some MULTI_LINE) d cs2"
      "source lx2 = source lx1" "pos lx2 = pos lx1 + length b"
    unfolding skips_in_block_def by metis
  from 1 2 show "\<exists>lx' cs'. skip_loop lx (Some MULTI_LINE) d cs = skip_loop lx' (Some MULTI_LINE) d cs'
      \<and> source lx' = source lx \<and> pos lx' = pos lx + length (a @ b)"
    by (intro exI [of _ lx2] exI [of _ cs2]) simp
qed

lemma skips_in_block_concat:
  "(\<And>x. x \<in> set xs \<Longrightarrow> skips_in_block (f x)) \<Longrightarrow> skips_in_block (concat (map f xs))"
  by (induction xs) (simp_all add: skips_in_block_empty skips_in_block_append)

lemma skips_in_block_body:
  assumes "c \<noteq> CHR ''/''" and "c \<noteq> CHR ''*''"
  shows "skips_in_block [c]"
  unfolding skips_in_block_def
proof (intro allI impI)
  fix lx :: Lexer and d cs post
  assume d: "(0::int) < d" and at: "drop (pos lx) (source lx) = [c] @ post"
  then have hm: "has_more lx 0" and ch: "source lx ! pos lx = c"
    using at_text [of lx c post] by simp_all
  have "\<exists>lx'. skip_body lx (Some MULTI_LINE) d cs = Inr (Continue lx' (Some MULTI_LINE) d cs)
      \<and> source lx' = source lx \<and> pos lx' = pos lx + 1"
    using hm ch assms by (simp add: skip_body_def peek_has_more)
  then obtain lx' where b: "skip_body lx (Some MULTI_LINE) d cs = Inr (Continue lx' (Some MULTI_LINE) d cs)"
    and p: "source lx' = source lx \<and> pos lx' = pos lx + 1"
    by blast
  from hm b have "skip_loop lx (Some MULTI_LINE) d cs = skip_loop lx' (Some MULTI_LINE) d cs"
    by (simp add: skip_loop.simps [of lx])
  with p show "\<exists>lx' cs'. skip_loop lx (Some MULTI_LINE) d cs = skip_loop lx' (Some MULTI_LINE) d cs'
      \<and> source lx' = source lx \<and> pos lx' = pos lx + length [c]"
    by auto
qed

lemma skip_loop_open:
  assumes "drop (pos lx) (source lx) = ''/*'' @ post" and "cct \<noteq> Some SINGLE_LINE"
  shows "skip_loop lx cct d cs = skip_loop (advance lx 2) (Some MULTI_LINE) (d + 1) (int (pos lx))"
proof -
  from assms(1) have "has_more lx 1" and "source lx ! pos lx = CHR ''/''" and "source lx ! (pos lx + 1) = CHR ''*''"
    using at_text2 [of lx "CHR ''/''" "CHR ''*''" post] by simp_all
  then show ?thesis
    using skip_body_open [of lx cct d cs] assms(2) has_more_0_if_1 [of lx]
    by (simp add: skip_loop.simps [of lx])
qed

lemma skip_loop_close:
  assumes "drop (pos lx) (source lx) = ''*/'' @ post"
  shows "skip_loop lx (Some MULTI_LINE) d cs
         = skip_loop (advance lx 2) (if d - 1 = 0 then None else Some MULTI_LINE) (d - 1) cs"
proof -
  from assms(1) have "has_more lx 1" and "source lx ! pos lx = CHR ''*''" and "source lx ! (pos lx + 1) = CHR ''/''"
    using at_text2 [of lx "CHR ''*''" "CHR ''/''" post] by simp_all
  then show ?thesis
    using skip_body_close [of lx d cs] has_more_0_if_1 [of lx]
    by (simp add: skip_loop.simps [of lx])
qed

lemma skip_loop_over_comment:
  assumes items: "skips_in_block (concat (map render items))"
    and at: "drop (pos lx) (source lx) = render (Inner items) @ post"
    and cct: "cct \<noteq> Some SINGLE_LINE" and d: "depth_consistent cct d"
  shows "\<exists>lx' cs'. skip_loop lx cct d cs = skip_loop lx' cct d cs'
           \<and> source lx' = source lx \<and> pos lx' = pos lx + length (render (Inner items))"
proof -
  let ?body = "concat (map render items)"
  from d have d0: "0 \<le> d"
    by (simp add: depth_consistent_def split: if_splits)
  have 1: "skip_loop lx cct d cs = skip_loop (advance lx 2) (Some MULTI_LINE) (d + 1) (int (pos lx))"
    using skip_loop_open [of lx "?body @ ''*/'' @ post" cct d cs] at cct by simp
  have "drop (pos (advance lx 2)) (source (advance lx 2)) = ?body @ (''*/'' @ post)"
    using drop_append_more [of "pos lx" "source lx" "''/*''" "?body @ ''*/'' @ post"] at by simp
  with items d0 obtain lx2 cs2 where
    2: "skip_loop (advance lx 2) (Some MULTI_LINE) (d + 1) (int (pos lx))
          = skip_loop lx2 (Some MULTI_LINE) (d + 1) cs2"
      "source lx2 = source lx" "pos lx2 = pos lx + 2 + length ?body"
    unfolding skips_in_block_def
    by (metis (no_types, lifting) add_strict_increasing2 advance_simps(1,2) zero_less_one)
  have t3: "drop (pos lx2) (source lx2) = ''*/'' @ post"
    using drop_append_more [of "pos lx" "source lx" "''/*'' @ ?body" "''*/'' @ post"] at 2 by simp
  have 3: "skip_loop lx2 (Some MULTI_LINE) (d + 1) cs2 = skip_loop (advance lx2 2) cct d cs2"
  proof -
    have "(cct = None \<and> d = 0) \<or> (cct = Some MULTI_LINE \<and> 0 < d)"
    proof (cases cct)
      case None
      with d show ?thesis by (simp add: depth_consistent_def)
    next
      case (Some a)
      with cct have "a = MULTI_LINE" by (cases a) simp_all
      with Some d show ?thesis by (simp add: depth_consistent_def)
    qed
    then show ?thesis
      using skip_loop_close [OF t3, of "d + 1" cs2] by auto
  qed
  from 1 2 3 show ?thesis
    by (intro exI [of _ "advance lx2 2"] exI [of _ cs2]) simp
qed

lemma plain_skips_in_block: "plain item \<Longrightarrow> skips_in_block (render item)"
proof (induction item)
  case (Body c)
  then show ?case by (simp add: skips_in_block_body)
next
  case (Inner items)
  then have body: "skips_in_block (concat (map render items))"
    by (intro skips_in_block_concat) (simp add: list_all_iff)
  show ?case
    unfolding skips_in_block_def
  proof (intro allI impI)
    fix lx :: Lexer and d cs post
    assume "(0::int) < d" and "drop (pos lx) (source lx) = render (Inner items) @ post"
    then show "\<exists>lx' cs'. skip_loop lx (Some MULTI_LINE) d cs = skip_loop lx' (Some MULTI_LINE) d cs'
        \<and> source lx' = source lx \<and> pos lx' = pos lx + length (render (Inner items))"
      using skip_loop_over_comment [OF body, of lx post "Some MULTI_LINE" d cs]
      by (simp add: depth_consistent_def)
  qed
qed





section \<open>Nested block comments\<close>




section \<open>The skipper against the specification's state machine\<close>

lemma skip_body_refines:
  assumes at: "drop (pos lx) (source lx) = c # rest" and dc: "depth_consistent cct d"
  shows "case skip_body lx cct d cs of
           Inl e \<Rightarrow> False
         | Inr Return \<Rightarrow> spec_skipper (state_of cct) d (c # rest) = Token_starts
         | Inr (Continue lx' cct' d' cs') \<Rightarrow>
             spec_skipper (state_of cct) d (c # rest)
               = spec_skipper (state_of cct') d' (drop (pos lx') (source lx'))"
proof -
  from at have hm: "has_more lx 0" and c: "source lx ! pos lx = c"
    using at_text [of lx c rest] by simp_all
  have d1: "drop (Suc (pos lx)) (source lx) = rest"
    using drop_append_more [of "pos lx" "source lx" "[c]" rest] at by simp
  show ?thesis
  proof (cases rest)
    case Nil
    with d1 have nm: "\<not> has_more lx 1"
      by (simp add: has_more_def)
    show ?thesis
      using hm c d1 nm dc Nil
      by (cases cct rule: state_of.cases)
         (simp_all add: skip_body_def peek_has_more depth_consistent_def)
  next
    case (Cons c' rest')
    with at have hm1: "has_more lx 1" and c1: "source lx ! (pos lx + 1) = c'"
      using at_text2 [of lx c c' rest'] by simp_all
    have d2: "drop (Suc (Suc (pos lx))) (source lx) = rest'"
      using drop_append_more [of "pos lx" "source lx" "[c, c']" rest'] at Cons by simp
    have unfold: "spec_skipper st d (c # c' # rest') =
       (if c = CHR '' '' \<or> c = CHR 0x09 then spec_skipper st d rest
        else if c = CHR 0x0A \<or> c = CHR 0x0D
        then spec_skipper (if st = LINE_COMMENT then NONE else st) d rest
        else if c = CHR ''/''
        then (if st = LINE_COMMENT then spec_skipper st d rest
              else if c' = CHR ''/'' \<and> st = NONE then spec_skipper LINE_COMMENT d rest'
              else if c' = CHR ''*'' then spec_skipper BLOCK_COMMENT (d + 1) rest'
              else if st = BLOCK_COMMENT then spec_skipper st d rest
              else Token_starts)
        else if st = BLOCK_COMMENT
        then (if c = CHR ''*'' \<and> c' = CHR ''/''
              then spec_skipper (if d - 1 = 0 then NONE else BLOCK_COMMENT) (d - 1) rest'
              else spec_skipper st d rest)
        else if st = LINE_COMMENT then spec_skipper st d rest
        else Token_starts)" for st
      unfolding Cons by (subst spec_skipper.simps(2)) simp
    show ?thesis
      unfolding Cons unfold
      using hm c hm1 c1 dc d1 [unfolded Cons] d2
      by (cases cct rule: state_of.cases)
         (simp_all add: skip_body_def peek_has_more depth_consistent_def del: spec_skipper.simps)
  qed
qed

lemma state_of_block: "state_of cct = BLOCK_COMMENT \<longleftrightarrow> cct = Some MULTI_LINE"
  by (cases cct rule: state_of.cases) simp_all

lemma skip_loop_refines:
  "depth_consistent cct d \<Longrightarrow>
     end_of (skip_loop lx cct d cs) = Some (spec_skipper (state_of cct) d (drop (pos lx) (source lx)))"
proof (induction lx cct d cs rule: skip_loop.induct)
  case (1 lx cct d cs)
  show ?case
  proof (cases "has_more lx 0")
    case False
    then have "drop (pos lx) (source lx) = []"
      by (simp add: has_more_def)
    with False show ?thesis
      by (subst skip_loop.simps) (simp add: build_span_eq state_of_block)
  next
    case True
    then obtain c rest where at: "drop (pos lx) (source lx) = c # rest"
      by (metis Cons_nth_drop_Suc add.right_neutral has_more_def)
    obtain out where out: "skip_body lx cct d cs = Inr out"
      using skip_body_total True by blast
    note step = skip_body_refines [OF at "1.prems", of cs]
    show ?thesis
    proof (cases out)
      case Return
      with True out step at show ?thesis
        by (subst skip_loop.simps) simp
    next
      case (Continue lx' cct' d' cs')
      have "depth_consistent cct' d'"
        using skip_body_depth_consistent True "1.prems" out Continue by blast
      from "1.IH" [OF True out Continue this] True out Continue step at show ?thesis
        by (subst skip_loop.simps) simp
    qed
  qed
qed

lemma next_token_sentinel_iff:
  "(\<exists>lx'. next_token lx = Inr (None, lx')) \<longleftrightarrow> no_further_token (drop (pos lx) (source lx))"
proof -
  obtain r lx1 where sk: "skip_whitespace lx = Inr (r, lx1)"
    using skip_loop_total [of lx None 0 "- 1"] by (auto simp: skip_whitespace_def)
  have e: "end_of (skip_whitespace lx) = Some (spec_skipper NONE 0 (drop (pos lx) (source lx)))"
    using skip_loop_refines [of None 0 lx "- 1"] by (simp add: skip_whitespace_def depth_consistent_def)
  obtain r' lx' where nt: "next_token lx = Inr (r', lx')"
    and res: "case r' of None \<Rightarrow> \<not> has_more lx' 0 \<and> skip_whitespace lx = Inr (None, lx')
              | Some t \<Rightarrow> pos lx < pos lx'"
    using next_token_result [of lx] by blast
  show ?thesis
  proof (cases r')
    case None
    with res e nt show ?thesis
      by (auto simp: no_further_token_def)
  next
    case (Some t)
    have "spec_skipper NONE 0 (drop (pos lx) (source lx)) \<noteq> Exhausted"
    proof
      assume ex: "spec_skipper NONE 0 (drop (pos lx) (source lx)) = Exhausted"
      with e sk have "r = None \<and> \<not> has_more lx1 0"
        by (cases r) (auto split: if_splits)
      then have "next_token lx = Inr (None, lx1)"
        using sk by (simp add: next_token_def has_more_def)
      with nt Some show False by simp
    qed
    with nt Some show ?thesis
      by (simp add: no_further_token_def)
  qed
qed

lemma spec_skipper_blanks:
  "list_all blank ws \<Longrightarrow> spec_skipper NONE d (ws @ rest) = spec_skipper NONE d rest"
  by (induction ws) (auto simp: blank_def)

lemma spec_skipper_token_start:
  "\<not> blank c \<Longrightarrow> c \<noteq> CHR ''/'' \<Longrightarrow> spec_skipper NONE d (c # rest) = Token_starts"
  by (simp add: blank_def)

lemma spec_skipper_comment:
  assumes "plain (Inner items)"
  shows "spec_skipper NONE 0 (render (Inner items) @ rest) = spec_skipper NONE 0 rest"
proof -
  let ?lx = "for_string (render (Inner items) @ rest)"
  have body: "skips_in_block (concat (map render items))"
    using assms plain_skips_in_block by (intro skips_in_block_concat) (simp add: list_all_iff)
  have t0: "drop (pos ?lx) (source ?lx) = render (Inner items) @ rest"
    by (simp add: for_string_def)
  obtain lx1 cs1 where 1: "skip_loop ?lx None 0 (- 1) = skip_loop lx1 None 0 cs1"
    "source lx1 = render (Inner items) @ rest" "pos lx1 = length (render (Inner items))"
    using skip_loop_over_comment [OF body t0, of None 0 "- 1"]
    by (auto simp: depth_consistent_def for_string_def)
  have "end_of (skip_loop ?lx None 0 (- 1)) = end_of (skip_loop lx1 None 0 cs1)"
    using 1 by simp
  then show ?thesis
    using skip_loop_refines [of None 0 ?lx "- 1"] skip_loop_refines [of None 0 lx1 cs1] 1 t0
    by (simp add: depth_consistent_def)
qed

section \<open>Termination and exhaustion\<close>

text \<open>
  Claim C8. \<open>next_token\<close> returns the end-of-stream sentinel exactly when the remaining
  input contains no further token, that is when the specification's skipper exhausts the
  characters from the position on. The call then leaves the scanner at the end of the text,
  and from that state every later call returns the sentinel again, with the state unchanged.
  In particular a character that is neither whitespace nor \<open>/\<close>, after any whitespace, is
  never passed over: a token (possibly an error token) is returned. And when only
  whitespace is left, or a balanced nested comment followed by whitespace, the sentinel is
  returned.
\<close>

theorem exhaustion_is_terminal:
  "((\<exists>lx'. next_token lx = Inr (None, lx')) \<longleftrightarrow> no_further_token (drop (pos lx) (source lx)))
   \<and> (next_token lx = Inr (None, lx') \<longleftrightarrow> skip_whitespace lx = Inr (None, lx') \<and> \<not> has_more lx' 0)
   \<and> (next_token lx = Inr (None, lx') \<longrightarrow> (\<forall>n. next_token_after n lx' = Inr (None, lx')))
   \<and> (list_all blank ws \<and> \<not> blank c \<and> c \<noteq> CHR ''/''
        \<and> drop (pos lx) (source lx) = ws @ c # rest
      \<longrightarrow> (\<exists>t lx'. next_token lx = Inr (Some t, lx')))
   \<and> (plain (Inner items) \<and> list_all blank ws
        \<and> (drop (pos lx) (source lx) = ws \<or> drop (pos lx) (source lx) = render (Inner items) @ ws)
      \<longrightarrow> (\<exists>lx'. next_token lx = Inr (None, lx')))"
proof (intro conjI impI)
  show iff: "(\<exists>lx'. next_token lx = Inr (None, lx')) \<longleftrightarrow> no_further_token (drop (pos lx) (source lx))"
    by (rule next_token_sentinel_iff)
  have fwd: "skip_whitespace lx = Inr (None, lx') \<and> \<not> has_more lx' 0"
    if "next_token lx = Inr (None, lx')"
    using next_token_result [of lx] that by auto
  have bwd: "next_token lx = Inr (None, lx')"
    if "skip_whitespace lx = Inr (None, lx') \<and> \<not> has_more lx' 0"
    using that by (simp add: next_token_def has_more_def)
  from fwd bwd show "next_token lx = Inr (None, lx') \<longleftrightarrow>
      skip_whitespace lx = Inr (None, lx') \<and> \<not> has_more lx' 0"
    by blast
  show "\<forall>n. next_token_after n lx' = Inr (None, lx')" if "next_token lx = Inr (None, lx')"
    using fwd [OF that] next_token_after_exhausted by blast
  show "\<exists>t lx'. next_token lx = Inr (Some t, lx')"
    if h: "list_all blank ws \<and> \<not> blank c \<and> c \<noteq> CHR ''/''
        \<and> drop (pos lx) (source lx) = ws @ c # rest"
  proof -
    from h have "spec_skipper NONE 0 (drop (pos lx) (source lx)) = Token_starts"
      using spec_skipper_blanks [of ws 0 "c # rest"] spec_skipper_token_start [of c 0 rest] by simp
    then have "\<not> no_further_token (drop (pos lx) (source lx))"
      by (simp add: no_further_token_def)
    with iff have "\<not> (\<exists>lx'. next_token lx = Inr (None, lx'))"
      by simp
    then show ?thesis
      using next_token_result [of lx] by (metis not_None_eq)
  qed
  show "\<exists>lx'. next_token lx = Inr (None, lx')"
    if h: "plain (Inner items) \<and> list_all blank ws
        \<and> (drop (pos lx) (source lx) = ws \<or> drop (pos lx) (source lx) = render (Inner items) @ ws)"
  proof -
    have "spec_skipper NONE 0 ws = Exhausted"
      using h spec_skipper_blanks [of ws 0 "[]"] by simp
    with h have "no_further_token (drop (pos lx) (source lx))"
      using spec_skipper_comment [of items ws] by (auto simp: no_further_token_def)
    with iff show ?thesis by simp
  qed
qed

theorem exhaustion_is_terminal_witness:
  "(\<exists>lx'. next_token (for_string ''  '') = Inr (None, lx'))
   \<and> next_token (for_string ''  '') = Inr (None, \<lparr>source = ''  '', pos = 2, line_start = 0, line = 0\<rparr>)
   \<and> next_token_after 5 \<lparr>source = ''  '', pos = 2, line_start = 0, line = 0\<rparr>
       = Inr (None, \<lparr>source = ''  '', pos = 2, line_start = 0, line = 0\<rparr>)
   \<and> (\<exists>t lx'. next_token (for_string '' a'') = Inr (Some t, lx'))
   \<and> (\<exists>lx'. next_token (for_string ''/* x */ '') = Inr (None, lx'))"
proof -
  let ?e = "\<lparr>source = ''  '', pos = 2, line_start = 0, line = 0\<rparr>"
  let ?items = "[Body CHR '' '', Body CHR ''x'', Body CHR '' '']"
  have n: "no_further_token (drop (pos (for_string ''  '')) (source (for_string ''  '')))"
    by (simp add: no_further_token_def for_string_def)
  have a: "next_token (for_string ''  '') = Inr (None, ?e)"
    by code_simp
  have b: "list_all blank '' '' \<and> \<not> blank CHR ''a'' \<and> CHR ''a'' \<noteq> CHR ''/''
      \<and> drop (pos (for_string '' a'')) (source (for_string '' a'')) = '' '' @ CHR ''a'' # []"
    by (simp add: blank_def for_string_def)
  have c: "plain (Inner ?items) \<and> list_all blank '' ''
      \<and> (drop (pos (for_string ''/* x */ '')) (source (for_string ''/* x */ '')) = '' ''
          \<or> drop (pos (for_string ''/* x */ '')) (source (for_string ''/* x */ ''))
              = render (Inner ?items) @ '' '')"
    by (simp add: blank_def for_string_def)
  note t1 = exhaustion_is_terminal [of "for_string ''  ''" ?e]
  note t2 = exhaustion_is_terminal [of "for_string '' a''" _ "'' ''" "CHR ''a''" "[]"]
  note t3 = exhaustion_is_terminal [of "for_string ''/* x */ ''" _ "'' ''" _ _ ?items]
  from t1 n have s1: "\<exists>lx'. next_token (for_string ''  '') = Inr (None, lx')"
    by blast
  from t1 a have s2: "next_token_after 5 ?e = Inr (None, ?e)"
    by blast
  from t2 b have s3: "\<exists>t lx'. next_token (for_string '' a'') = Inr (Some t, lx')"
    by blast
  from t3 c have s4: "\<exists>lx'. next_token (for_string ''/* x */ '') = Inr (None, lx')"
    by blast
  from s1 a s2 s3 s4 show ?thesis
    by blast
qed

text \<open>
  Claim C9. Every pass of the skipper's loop that does not return moves the position
  strictly forward, staying inside the text. Every call of \<open>next_token\<close> returns, and a
  call that returns a token has moved the position strictly forward. So a caller that has
  made as many calls as there are characters left gets the sentinel from the next one.
\<close>

theorem next_token_terminates:
  "(has_more lx 0 \<and> skip_body lx cct d cs = Inr (Continue lx1 cct1 d1 cs1)
      \<longrightarrow> source lx1 = source lx \<and> pos lx < pos lx1 \<and> pos lx1 \<le> length (source lx))
   \<and> (\<exists>r lx'. next_token lx = Inr (r, lx') \<and> source lx' = source lx
         \<and> (r \<noteq> None \<longrightarrow> pos lx < pos lx'))
   \<and> (\<exists>lx'. next_token_after (length (source lx) - pos lx) lx = Inr (None, lx'))"
proof (intro conjI impI)
  show "\<exists>r lx'. next_token lx = Inr (r, lx') \<and> source lx' = source lx \<and> (r \<noteq> None \<longrightarrow> pos lx < pos lx')"
    using next_token_result [of lx] by (auto split: option.splits)
  show "\<exists>lx'. next_token_after (length (source lx) - pos lx) lx = Inr (None, lx')"
    using next_token_after_sentinel [of lx "length (source lx) - pos lx"] by simp
qed (use skip_body_progress in blast)+

theorem next_token_terminates_witness:
  "pos (for_string '' a'') < pos (advance (for_string '' a'') 1)
   \<and> (\<exists>lx'. next_token_after 2 (for_string '' a'') = Inr (None, lx'))"
proof -
  let ?lx = "for_string '' a''"
  have h: "has_more ?lx 0
      \<and> skip_body ?lx None 0 (- 1) = Inr (Continue (advance ?lx 1) None 0 (- 1))"
    by (simp add: has_more_def for_string_def skip_body_def peek_def char_at_def)
  have n: "length (source ?lx) - pos ?lx = 2"
    by (simp add: for_string_def)
  from h n next_token_terminates [of ?lx None 0 "- 1" "advance ?lx 1" None 0 "- 1"]
  show ?thesis by simp
qed

section \<open>No index error\<close>

text \<open>
  Claim C10. Reading the source out of range is an \<open>IndexError\<close> in this model, and no
  call of \<open>next_token\<close> ends in one: from every scanner state, the call, and every call of
  a sequence of calls, returns a token or the sentinel.
\<close>

theorem next_token_never_raises:
  "(\<exists>r lx'. next_token lx = Inr (r, lx')) \<and> (\<exists>r lx'. next_token_after n lx = Inr (r, lx'))"
  using next_token_after_total [of 0 lx] next_token_after_total [of n lx] by simp

section \<open>Spans and consumed characters\<close>

text \<open>
  The recognizers for identifiers, keywords and numbers move the position over the token
  in their loop, and then call \<open>build_span\<close> with the token's length. \<open>build_span\<close>
  starts the span at the position it finds, which is the end of the token, and moves the
  position on by the length once more.
\<close>

text \<open>
  Claim C1 on the input \<open>ab\<close>: the identifier \<open>ab\<close> gets the span from column 2 to
  column 4, which selects the empty text.
\<close>

theorem identifier_span_shifted:
  "next_token (for_string ''ab'')
     = Inr (Some (Identifier ''ab'' \<lparr>start_line = 0, start_col = 2, end_line = 0, end_col = 4\<rparr>),
            \<lparr>source = ''ab'', pos = 4, line_start = 0, line = 0\<rparr>)
   \<and> token_text (Identifier ''ab'' \<lparr>start_line = 0, start_col = 2, end_line = 0, end_col = 4\<rparr>) = Some ''ab''
   \<and> span_text ''ab'' \<lparr>start_line = 0, start_col = 2, end_line = 0, end_col = 4\<rparr> = ''''"
  by code_simp

text \<open>
  Claim C2 on the input \<open>ab cd\<close>: the skipper consumes nothing before the first token,
  the first call leaves the scanner at offset 4, the skipper consumes nothing there either,
  and the second token is the identifier \<open>d\<close>. The characters at offsets 2 and 3 are
  consumed by no skipper run and lie in no token.
\<close>

theorem characters_after_identifier_lost:
  "skip_whitespace (for_string ''ab cd'') = Inr (None, for_string ''ab cd'')
   \<and> next_token (for_string ''ab cd'')
     = Inr (Some (Identifier ''ab'' \<lparr>start_line = 0, start_col = 2, end_line = 0, end_col = 4\<rparr>),
            \<lparr>source = ''ab cd'', pos = 4, line_start = 0, line = 0\<rparr>)
   \<and> skip_whitespace \<lparr>source = ''ab cd'', pos = 4, line_start = 0, line = 0\<rparr>
     = Inr (None, \<lparr>source = ''ab cd'', pos = 4, line_start = 0, line = 0\<rparr>)
   \<and> next_token_after 1 (for_string ''ab cd'')
     = Inr (Some (Identifier ''d'' \<lparr>start_line = 0, start_col = 5, end_line = 0, end_col = 6\<rparr>),
            \<lparr>source = ''ab cd'', pos = 6, line_start = 0, line = 0\<rparr>)
   \<and> next_token_after 2 (for_string ''ab cd'')
     = Inr (None, \<lparr>source = ''ab cd'', pos = 6, line_start = 0, line = 0\<rparr>)"
  by code_simp

text \<open>
  Claim C3 on the input \<open>007\<close>: the error token carries the whole run, with the span from
  column 3 to column 6.
\<close>

theorem leading_zero_span_shifted:
  "next_token (for_string ''007'')
     = Inr (Some (ErrorToken ''007'' \<lparr>start_line = 0, start_col = 3, end_line = 0, end_col = 6\<rparr>),
            \<lparr>source = ''007'', pos = 6, line_start = 0, line = 0\<rparr>)"
  by code_simp

text \<open>
  Claim C4 on the input \<open>0x1A3\<close>: the literal has base 16 and the whole text, with the
  span from column 5 to column 10.
\<close>

theorem hex_literal_span_shifted:
  "next_token (for_string ''0x1A3'')
     = Inr (Some (NumberLiteral ''0x1A3'' 16 \<lparr>start_line = 0, start_col = 5, end_line = 0, end_col = 10\<rparr>),
            \<lparr>source = ''0x1A3'', pos = 10, line_start = 0, line = 0\<rparr>)"
  by code_simp

section \<open>Unterminated block comments\<close>

text \<open>
  Claim C7 on the input \<open>/* /* x */ y\<close>: the outer comment is the unterminated one, and
  the message starts at the inner comment, which is closed. On \<open>/* unterminated\<close> the
  message is the whole input and the span has zero width at column 15.
\<close>

theorem unterminated_comment_message_from_inner_opener:
  "next_token (for_string ''/* /* x */ y'')
     = Inr (Some (ErrorToken ''/* x */ y'' \<lparr>start_line = 0, start_col = 12, end_line = 0, end_col = 12\<rparr>),
            \<lparr>source = ''/* /* x */ y'', pos = 12, line_start = 0, line = 0\<rparr>)
   \<and> next_token (for_string ''/* unterminated'')
     = Inr (Some (ErrorToken ''/* unterminated'' \<lparr>start_line = 0, start_col = 15, end_line = 0, end_col = 15\<rparr>),
            \<lparr>source = ''/* unterminated'', pos = 15, line_start = 0, line = 0\<rparr>)"
  by code_simp

end
